theory Spec2Isabelle
  imports Main "HOL-Library.Word"
begin

section \<open>Data model of the input batcher (internal/component/input/batcher/batcher.go)\<close>

text \<open>
  Wall-clock instants and durations are counted in nanoseconds. A Go \<^verbatim>\<open>error\<close> is an
  option: \<open>None\<close> is \<^verbatim>\<open>nil\<close> (success), \<open>Some e\<close> is a failure.
  A tracked transaction is what \<^verbatim>\<open>transaction.NewTracked(tran.Payload, tran.Ack)\<close> keeps:
  the parts of the payload and the acknowledgment sink of the upstream transaction.
\<close>

type_synonym time = int

type_synonym ('p, 'a) tracked = "'p list \<times> 'a"

subsection \<open>The shutdown signaller\<close>

text \<open>
  Modelled from the spec: \<^verbatim>\<open>shutdown.Signaller\<close> is not part of the sources at hand. The spec
  gives it the states Running, GracefulRequested, ForcedRequested and Closed, a trigger for
  graceful close, a trigger for forced close, and three observable conditions; the
  cancellation token is satisfied once forced close is requested and also once fully closed.
\<close>

datatype signal = Running | GracefulRequested | ForcedRequested | Closed

definition CloseAtLeisure :: "signal \<Rightarrow> signal" where
  "CloseAtLeisure g = (if g = Running then GracefulRequested else g)"

definition CloseNow :: "signal \<Rightarrow> signal" where
  "CloseNow g = (if g = Closed then Closed else ForcedRequested)"

definition ShutdownComplete :: "signal \<Rightarrow> signal" where
  "ShutdownComplete g = Closed"

definition CloseAtLeisureChan :: "signal \<Rightarrow> bool" where
  "CloseAtLeisureChan g = (g \<noteq> Running)"

definition CloseNowChan :: "signal \<Rightarrow> bool" where
  "CloseNowChan g = (g = ForcedRequested \<or> g = Closed)"

definition HasClosedChan :: "signal \<Rightarrow> bool" where
  "HasClosedChan g = (g = Closed)"

subsection \<open>The batch policy, as the loop uses it\<close>

text \<open>
  \<^verbatim>\<open>policy.Batcher\<close> is not part of the sources at hand; the loop only calls \<^verbatim>\<open>Add\<close>,
  \<^verbatim>\<open>UntilNext\<close> and \<^verbatim>\<open>Flush\<close>, so the three operations are parameters of the model. They
  read the wall clock, which is passed explicitly. \<^verbatim>\<open>Flush\<close> returns \<open>None\<close> for Go's
  \<^verbatim>\<open>nil\<close> message.
\<close>

record ('b, 'p) policy =
  Add :: "time \<Rightarrow> 'p \<Rightarrow> 'b \<Rightarrow> bool \<times> 'b"
  UntilNext :: "time \<Rightarrow> 'b \<Rightarrow> int"
  Flush :: "time \<Rightarrow> 'b \<Rightarrow> 'p list option \<times> 'b"

subsection \<open>Observable actions\<close>

datatype ('p, 'a, 'e) action =
    FlushCall "'p list option"
  | SendDownstream "'p list" nat
  | SpawnAckTask nat "('p, 'a) tracked list"
  | AckCall 'a "'e option" bool
  | PendingAcksWait
  | PendingAcksResolved
  | ChildCloseAsync
  | ChildWaitForClose
  | BatcherCloseAsync
  | BatcherWaitForClose
  | CloseMessagesOut
  | MarkClosed

section \<open>The ack-forward task (batcher.go, lines 90 to 109)\<close>

text \<open>
  What the \<^verbatim>\<open>select\<close> of the task receives: the close-now signal, a closed result channel,
  or a result. With a result comes the behaviour of the contributors' sinks: for each sink,
  whether \<^verbatim>\<open>Ack\<close> returns \<^verbatim>\<open>nil\<close> (the sink took the result) or an error.
\<close>

datatype ('a, 'e) task_event =
    TaskCloseNow
  | TaskChanClosed
  | TaskResult "'e option" "'a \<Rightarrow> bool"

text \<open>
  The \<^verbatim>\<open>for\<close> loop over \<^verbatim>\<open>aggregatedTransactions\<close>: every contributor is handed the same
  \<open>res\<close>; the first \<^verbatim>\<open>Ack\<close> that returns an error ends the loop.
\<close>

fun forward :: "('a \<Rightarrow> bool) \<Rightarrow> 'e option \<Rightarrow> ('p, 'a) tracked list \<Rightarrow> ('p, 'a, 'e) action list" where
  "forward ok res [] = []"
| "forward ok res (c # cs) =
     (if ok (snd c) then AckCall (snd c) res True # forward ok res cs
      else [AckCall (snd c) res False])"

definition ack_task :: "('a, 'e) task_event \<Rightarrow> ('p, 'a) tracked list \<Rightarrow> ('p, 'a, 'e) action list" where
  "ack_task tev aggregatedTransactions =
     (case tev of
        TaskCloseNow \<Rightarrow> []
      | TaskChanClosed \<Rightarrow> []
      | TaskResult res ok \<Rightarrow> forward ok res aggregatedTransactions)"

text \<open>The \<^verbatim>\<open>Ack\<close> calls made on one sink, and the results that sink took.\<close>

fun attempts :: "'a \<Rightarrow> ('p, 'a, 'e) action list \<Rightarrow> ('e option) list" where
  "attempts a [] = []"
| "attempts a (AckCall b res d # tr) = (if a = b then res # attempts a tr else attempts a tr)"
| "attempts a (x # tr) = attempts a tr"

fun delivered :: "'a \<Rightarrow> ('p, 'a, 'e) action list \<Rightarrow> ('e option) list" where
  "delivered a [] = []"
| "delivered a (AckCall b res d # tr) =
     (if a = b \<and> d then res # delivered a tr else delivered a tr)"
| "delivered a (x # tr) = delivered a tr"

section \<open>The stage: loop, flushBatchFn and the deferred shutdown sequence\<close>

text \<open>
  The goroutine of \<^verbatim>\<open>loop\<close> blocks in four places: the main \<^verbatim>\<open>select\<close> (line 132), the
  \<^verbatim>\<open>select\<close> that honours an armed timer once the input has closed (line 137), the
  \<^verbatim>\<open>select\<close> that sends a batch downstream (line 83) and \<^verbatim>\<open>pendingAcks.Wait()\<close>
  (line 120). The send remembers where \<^verbatim>\<open>flushBatchFn\<close> was called from.
\<close>

datatype cont = ContinueLoop | ReturnFromLoop | FinalWait

datatype 'p pc = MainSelect | DrainSelect | SendSelect "'p list" cont | AcksWait | Terminated

text \<open>
  The local variables of \<^verbatim>\<open>loop\<close> together with what it shares with other goroutines:
  \<open>nextTimedBatchChan\<close> holds the instant at which the armed timer fires (\<open>None\<close> is the
  \<^verbatim>\<open>nil\<close> channel), \<open>pendingAcks\<close> holds the ack-forward tasks that have been started and
  have not called \<^verbatim>\<open>Done\<close> yet (the wait group's counter is its length), each with its
  result channel and its captured transactions.
\<close>

record ('b, 'p, 'a, 'e) stage =
  batcher :: 'b
  nextTimedBatchChan :: "time option"
  pendingTrans :: "('p, 'a) tracked list"
  pendingAcks :: "(nat \<times> ('p, 'a) tracked list) list"
  nextChan :: nat
  clock :: time
  shutSig :: signal
  pc :: "'p pc"
  trace :: "('p, 'a, 'e) action list"

text \<open>
  What can happen next. The first three come from outside the loop: time passes, a caller
  invokes \<^verbatim>\<open>CloseAsync\<close>, the goroutine started by \<^verbatim>\<open>WaitForClose\<close> invokes
  \<^verbatim>\<open>shutSig.CloseNow\<close>. The next six are the cases a \<^verbatim>\<open>select\<close> of the loop takes.
  The last one lets the ack-forward task of a result channel run to its end.
\<close>

datatype ('p, 'a, 'e) event =
    Elapse nat
  | CallCloseAsync
  | CallCloseNow
  | RecvTran "'p list" 'a
  | RecvClosed
  | TimedBatch
  | AtLeisure
  | Sent
  | SendAborted
  | AckTask nat "('a, 'e) task_event"

definition emit :: "('p, 'a, 'e) action list \<Rightarrow> ('b, 'p, 'a, 'e) stage \<Rightarrow> ('b, 'p, 'a, 'e) stage" where
  "emit as s = s\<lparr>trace := trace s @ as\<rparr>"

text \<open>Lines 69 to 71 and 125 to 129: arm the timer only when none is armed.\<close>

definition arm :: "('b, 'p) policy \<Rightarrow> ('b, 'p, 'a, 'e) stage \<Rightarrow> ('b, 'p, 'a, 'e) stage" where
  "arm ops s =
     (if nextTimedBatchChan s = None then
        (let tNext = UntilNext ops (clock s) (batcher s) in
         if tNext \<ge> 0 then s\<lparr>nextTimedBatchChan := Some (clock s + tNext)\<rparr> else s)
      else s)"

definition loop_top :: "('b, 'p) policy \<Rightarrow> ('b, 'p, 'a, 'e) stage \<Rightarrow> ('b, 'p, 'a, 'e) stage" where
  "loop_top ops s = (arm ops s)\<lparr>pc := MainSelect\<rparr>"

text \<open>
  The first deferred function of \<^verbatim>\<open>loop\<close> (lines 48 to 66), which runs last: close the
  child and the policy, close \<^verbatim>\<open>messagesOut\<close> and mark the shutdown complete. The waits on
  the child and on the policy are bounded by \<^verbatim>\<open>shutdown.MaximumShutdownWait()\<close> and their
  results are dropped. The goroutine of lines 49 to 56 only calls \<^verbatim>\<open>WaitForClose(0)\<close> on
  the child and on the policy and drops the results as well; it leaves no action.
\<close>

definition closing :: "('b, 'p, 'a, 'e) stage \<Rightarrow> ('b, 'p, 'a, 'e) stage" where
  "closing s =
     (emit [PendingAcksResolved, ChildCloseAsync, ChildWaitForClose, BatcherCloseAsync,
            BatcherWaitForClose, CloseMessagesOut, MarkClosed] s)
       \<lparr>shutSig := ShutdownComplete (shutSig s), pc := Terminated\<rparr>"

text \<open>\<^verbatim>\<open>pendingAcks.Wait()\<close> returns as soon as no task is outstanding.\<close>

definition settle :: "('b, 'p, 'a, 'e) stage \<Rightarrow> ('b, 'p, 'a, 'e) stage" where
  "settle s = (if pc s = AcksWait \<and> pendingAcks s = [] then closing s else s)"

definition acks_wait :: "('b, 'p, 'a, 'e) stage \<Rightarrow> ('b, 'p, 'a, 'e) stage" where
  "acks_wait s = settle ((emit [PendingAcksWait] s)\<lparr>pc := AcksWait\<rparr>)"

text \<open>
  \<^verbatim>\<open>flushBatchFn\<close>, lines 77 to 87: flush the policy; with nothing to send, return to the
  caller (\<open>ret\<close>), otherwise block in the send.
\<close>

definition flushBatchFn ::
  "('b, 'p) policy \<Rightarrow> (('b, 'p, 'a, 'e) stage \<Rightarrow> ('b, 'p, 'a, 'e) stage) \<Rightarrow> cont \<Rightarrow>
   ('b, 'p, 'a, 'e) stage \<Rightarrow> ('b, 'p, 'a, 'e) stage" where
  "flushBatchFn ops ret k s =
     (let (sendMsg, b) = Flush ops (clock s) (batcher s);
          s1 = emit [FlushCall sendMsg] (s\<lparr>batcher := b\<rparr>)
      in case sendMsg of None \<Rightarrow> ret s1 | Some m \<Rightarrow> s1\<lparr>pc := SendSelect m k\<rparr>)"

text \<open>The second deferred function (lines 113 to 122), which runs first when the loop returns.\<close>

definition return_from_loop :: "('b, 'p) policy \<Rightarrow> ('b, 'p, 'a, 'e) stage \<Rightarrow> ('b, 'p, 'a, 'e) stage" where
  "return_from_loop ops s = flushBatchFn ops acks_wait FinalWait s"

definition continue :: "('b, 'p) policy \<Rightarrow> cont \<Rightarrow> ('b, 'p, 'a, 'e) stage \<Rightarrow> ('b, 'p, 'a, 'e) stage" where
  "continue ops k s =
     (case k of
        ContinueLoop \<Rightarrow> loop_top ops s
      | ReturnFromLoop \<Rightarrow> return_from_loop ops s
      | FinalWait \<Rightarrow> acks_wait s)"

text \<open>Lines 148 to 153: every part of the transaction is added; any \<open>True\<close> marks the batch.\<close>

fun add_parts :: "('b, 'p) policy \<Rightarrow> time \<Rightarrow> 'p list \<Rightarrow> bool \<Rightarrow> 'b \<Rightarrow> bool \<times> 'b" where
  "add_parts ops t [] flushBatch b = (flushBatch, b)"
| "add_parts ops t (p # ps) flushBatch b =
     (let (r, b') = Add ops t p b in add_parts ops t ps (flushBatch \<or> r) b')"

text \<open>Lines 89 to 110, after the send went through: start the task, detach the fan-in set.\<close>

definition sent :: "'p list \<Rightarrow> ('b, 'p, 'a, 'e) stage \<Rightarrow> ('b, 'p, 'a, 'e) stage" where
  "sent m s =
     (emit [SendDownstream m (nextChan s), SpawnAckTask (nextChan s) (pendingTrans s)] s)
       \<lparr>pendingAcks := pendingAcks s @ [(nextChan s, pendingTrans s)],
        nextChan := Suc (nextChan s),
        pendingTrans := []\<rparr>"

definition timer_due :: "('b, 'p, 'a, 'e) stage \<Rightarrow> bool" where
  "timer_due s = (case nextTimedBatchChan s of None \<Rightarrow> False | Some d \<Rightarrow> d \<le> clock s)"

definition main_select ::
  "('b, 'p) policy \<Rightarrow> ('b, 'p, 'a, 'e) stage \<Rightarrow> ('p, 'a, 'e) event \<Rightarrow> ('b, 'p, 'a, 'e) stage option" where
  "main_select ops s ev =
     (case ev of
        RecvTran parts ack \<Rightarrow>
          (let (flushBatch, b) = add_parts ops (clock s) parts False (batcher s);
               s1 = s\<lparr>batcher := b, pendingTrans := pendingTrans s @ [(parts, ack)]\<rparr>
           in Some (if flushBatch then flushBatchFn ops (loop_top ops) ContinueLoop s1
                    else loop_top ops s1))
      | RecvClosed \<Rightarrow>
          (if nextTimedBatchChan s \<noteq> None then Some (s\<lparr>pc := DrainSelect\<rparr>)
           else Some (flushBatchFn ops (return_from_loop ops) ReturnFromLoop s))
      | TimedBatch \<Rightarrow>
          (if timer_due s
           then Some (flushBatchFn ops (loop_top ops) ContinueLoop (s\<lparr>nextTimedBatchChan := None\<rparr>))
           else None)
      | AtLeisure \<Rightarrow>
          (if CloseAtLeisureChan (shutSig s) then Some (return_from_loop ops s) else None)
      | _ \<Rightarrow> None)"

definition drain_select ::
  "('b, 'p) policy \<Rightarrow> ('b, 'p, 'a, 'e) stage \<Rightarrow> ('p, 'a, 'e) event \<Rightarrow> ('b, 'p, 'a, 'e) stage option" where
  "drain_select ops s ev =
     (case ev of
        TimedBatch \<Rightarrow>
          (if timer_due s then Some (flushBatchFn ops (return_from_loop ops) ReturnFromLoop s)
           else None)
      | AtLeisure \<Rightarrow>
          (if CloseAtLeisureChan (shutSig s) then Some (return_from_loop ops s) else None)
      | _ \<Rightarrow> None)"

definition send_select ::
  "('b, 'p) policy \<Rightarrow> 'p list \<Rightarrow> cont \<Rightarrow> ('b, 'p, 'a, 'e) stage \<Rightarrow> ('p, 'a, 'e) event \<Rightarrow>
   ('b, 'p, 'a, 'e) stage option" where
  "send_select ops m k s ev =
     (case ev of
        Sent \<Rightarrow> Some (continue ops k (sent m s))
      | SendAborted \<Rightarrow> (if CloseNowChan (shutSig s) then Some (continue ops k s) else None)
      | _ \<Rightarrow> None)"

text \<open>
  One ack-forward task runs: its \<^verbatim>\<open>Ack\<close> calls are recorded and the deferred
  \<^verbatim>\<open>pendingAcks.Done()\<close> takes it off the outstanding tasks.
\<close>

definition run_task ::
  "nat \<Rightarrow> ('a, 'e) task_event \<Rightarrow> ('b, 'p, 'a, 'e) stage \<Rightarrow> ('b, 'p, 'a, 'e) stage option" where
  "run_task n tev s =
     (case map_of (pendingAcks s) n of
        None \<Rightarrow> None
      | Some aggregatedTransactions \<Rightarrow>
          (if (case tev of TaskCloseNow \<Rightarrow> \<not> CloseNowChan (shutSig s) | _ \<Rightarrow> False) then None
           else Some (settle ((emit (ack_task tev aggregatedTransactions) s)
                        \<lparr>pendingAcks := filter (\<lambda>t. fst t \<noteq> n) (pendingAcks s)\<rparr>))))"

text \<open>
  One step of the stage. \<open>None\<close> says that the event cannot happen in this state: a
  \<^verbatim>\<open>select\<close> takes a case only when its channel is ready, and a loop that waits for its
  tasks or has terminated takes none. Which of several ready cases is taken is not decided
  by the model: it is read from the event.
\<close>

definition step ::
  "('b, 'p) policy \<Rightarrow> ('b, 'p, 'a, 'e) stage \<Rightarrow> ('p, 'a, 'e) event \<Rightarrow> ('b, 'p, 'a, 'e) stage option" where
  "step ops s ev =
     (case ev of
        Elapse d \<Rightarrow> Some (s\<lparr>clock := clock s + int d\<rparr>)
      | CallCloseAsync \<Rightarrow> Some (s\<lparr>shutSig := CloseAtLeisure (shutSig s)\<rparr>)
      | CallCloseNow \<Rightarrow> Some (s\<lparr>shutSig := CloseNow (shutSig s)\<rparr>)
      | AckTask n tev \<Rightarrow> run_task n tev s
      | _ \<Rightarrow>
          (case pc s of
             MainSelect \<Rightarrow> main_select ops s ev
           | DrainSelect \<Rightarrow> drain_select ops s ev
           | SendSelect m k \<Rightarrow> send_select ops m k s ev
           | AcksWait \<Rightarrow> None
           | Terminated \<Rightarrow> None))"

fun run :: "('b, 'p) policy \<Rightarrow> ('b, 'p, 'a, 'e) stage \<Rightarrow> ('p, 'a, 'e) event list \<Rightarrow>
            ('b, 'p, 'a, 'e) stage option" where
  "run ops s [] = Some s"
| "run ops s (ev # evs) = (case step ops s ev of None \<Rightarrow> None | Some s' \<Rightarrow> run ops s' evs)"

text \<open>\<^verbatim>\<open>New\<close> starts the loop: lines 68 to 74, then the head of the first iteration.\<close>

definition New :: "('b, 'p) policy \<Rightarrow> 'b \<Rightarrow> time \<Rightarrow> ('b, 'p, 'a, 'e) stage" where
  "New ops b t0 =
     loop_top ops (arm ops
       \<lparr>batcher = b, nextTimedBatchChan = None, pendingTrans = [], pendingAcks = [],
        nextChan = 0, clock = t0, shutSig = Running, pc = MainSelect, trace = []\<rparr>)"

section \<open>The batch accumulator\<close>

text \<open>
  Modelled from the spec: the accumulator behind \<^verbatim>\<open>policy.Batcher\<close> is not part of the
  sources at hand. The spec's words: \<^verbatim>\<open>Add\<close> ingests one record and returns true once a
  configured trigger is met (count reached, cumulative size reached, predicate over the
  accumulated batch satisfied), the triggers combined by logical or; \<^verbatim>\<open>UntilNext\<close> is the
  time remaining until the period trigger fires, negative if no period is configured or
  nothing is pending, the period counted from the last flush or from creation; \<^verbatim>\<open>Flush\<close>
  extracts and clears the whole working batch and returns empty if nothing is pending.
  A count or size of 0 and a period that is not positive mean that the trigger is off.
\<close>

record 'p accumulator =
  count :: nat
  byteSize :: nat
  period :: int
  check :: "'p list \<Rightarrow> bool"
  sizeOf :: "'p \<Rightarrow> nat"
  parts :: "'p list"
  lastBatch :: time

definition triggered :: "'p accumulator \<Rightarrow> bool" where
  "triggered b =
     ((count b > 0 \<and> length (parts b) \<ge> count b)
      \<or> (byteSize b > 0 \<and> sum_list (map (sizeOf b) (parts b)) \<ge> byteSize b)
      \<or> check b (parts b))"

definition acc_Add :: "time \<Rightarrow> 'p \<Rightarrow> 'p accumulator \<Rightarrow> bool \<times> 'p accumulator" where
  "acc_Add t p b = (let b' = b\<lparr>parts := parts b @ [p]\<rparr> in (triggered b', b'))"

definition acc_UntilNext :: "time \<Rightarrow> 'p accumulator \<Rightarrow> int" where
  "acc_UntilNext t b =
     (if period b \<le> 0 \<or> parts b = [] then - 1 else lastBatch b + period b - t)"

definition acc_Flush :: "time \<Rightarrow> 'p accumulator \<Rightarrow> 'p list option \<times> 'p accumulator" where
  "acc_Flush t b =
     (if parts b = [] then (None, b\<lparr>lastBatch := t\<rparr>)
      else (Some (parts b), b\<lparr>parts := [], lastBatch := t\<rparr>))"

definition acc_ops :: "('p accumulator, 'p) policy" where
  "acc_ops = \<lparr>Add = acc_Add, UntilNext = acc_UntilNext, Flush = acc_Flush\<rparr>"

text \<open>An accumulator with only the count trigger, and one with only the period trigger.\<close>

definition counting :: "nat \<Rightarrow> 'p accumulator" where
  "counting K =
     \<lparr>count = K, byteSize = 0, period = 0, check = (\<lambda>_. False), sizeOf = (\<lambda>_. 0),
      parts = [], lastBatch = 0\<rparr>"

definition timed :: "nat \<Rightarrow> int \<Rightarrow> 'p accumulator" where
  "timed K d =
     \<lparr>count = K, byteSize = 0, period = d, check = (\<lambda>_. False), sizeOf = (\<lambda>_. 0),
      parts = [], lastBatch = 0\<rparr>"

text \<open>The batches that went downstream, in the order of the sends.\<close>

fun sent_batches :: "('p, 'a, 'e) action list \<Rightarrow> 'p list list" where
  "sent_batches [] = []"
| "sent_batches (SendDownstream m n # tr) = m # sent_batches tr"
| "sent_batches (x # tr) = sent_batches tr"

text \<open>All \<^verbatim>\<open>Ack\<close> calls of a trace: the sink, the result handed over, whether the sink took it.\<close>

fun ack_calls :: "('p, 'a, 'e) action list \<Rightarrow> ('a \<times> 'e option \<times> bool) list" where
  "ack_calls [] = []"
| "ack_calls (AckCall a res d # tr) = (a, res, d) # ack_calls tr"
| "ack_calls (x # tr) = ack_calls tr"






text \<open>Example states: a stage waiting for its only ack-forward task, and one blocked in a send.\<close>

definition waiting_for_one_task :: "(string accumulator, string, nat, string) stage" where
  "waiting_for_one_task =
     \<lparr>batcher = counting 1, nextTimedBatchChan = None, pendingTrans = [],
      pendingAcks = [(0, [([''A''], 0)])], nextChan = 1, clock = 0, shutSig = GracefulRequested,
      pc = AcksWait,
      trace = [FlushCall (Some [''A'']), SendDownstream [''A''] 0, SpawnAckTask 0 [([''A''], 0)],
               FlushCall None, PendingAcksWait]\<rparr>"

definition blocked_in_send :: "(string accumulator, string, nat, string) stage" where
  "blocked_in_send =
     \<lparr>batcher = counting 1, nextTimedBatchChan = None, pendingTrans = [([''A''], 0)],
      pendingAcks = [], nextChan = 0, clock = 0, shutSig = ForcedRequested,
      pc = SendSelect [''A''] ContinueLoop,
      trace = [FlushCall (Some [''A''])]\<rparr>"

text \<open>
  The events that need no cooperation from upstream or downstream once forced close has
  been requested: a \<^verbatim>\<open>select\<close> taking its close case, and a task taking its close-now case.
\<close>

fun is_forced :: "('p, 'a, 'e) event \<Rightarrow> bool" where
  "is_forced SendAborted = True"
| "is_forced AtLeisure = True"
| "is_forced (AckTask n tev) = (case tev of TaskCloseNow \<Rightarrow> True | _ \<Rightarrow> False)"
| "is_forced ev = False"


text \<open>
  The spec's batches for a count threshold: the records cut into runs of \<open>K\<close>, the last
  run holding what is left.
\<close>

function chunks :: "nat \<Rightarrow> 'p list \<Rightarrow> 'p list list" where
  "chunks K xs = (if K = 0 \<or> xs = [] then [] else take K xs # chunks K (drop K xs))"
  by pat_completeness auto
termination
  by (relation "measure (\<lambda>(K, xs). length xs)") auto

text \<open>
  A run of the stage on records that arrive one per transaction: every send is accepted
  by the downstream consumer, no close is requested, and the input closes after the last
  record. \<open>n\<close> counts the records pending in the accumulator.
\<close>

fun arrivals :: "nat \<Rightarrow> nat \<Rightarrow> ('p \<times> 'a) list \<Rightarrow> ('p, 'a, 'e) event list" where
  "arrivals K n [] = RecvClosed # (if n = 0 then [] else [Sent])"
| "arrivals K n (x # xs) =
     RecvTran [fst x] (snd x)
       # (if K \<le> Suc n then Sent # arrivals K 0 xs else arrivals K (Suc n) xs)"

text \<open>An accumulator on which only the count trigger is configured.\<close>

definition count_only :: "nat \<Rightarrow> 'p accumulator \<Rightarrow> bool" where
  "count_only K b =
     (count b = K \<and> byteSize b = 0 \<and> period b \<le> 0 \<and> check b = (\<lambda>ps. False))"

text \<open>The deadline that lines 126 to 128 compute from \<^verbatim>\<open>UntilNext\<close>.\<close>

definition rearmed :: "('b, 'p) policy \<Rightarrow> ('b, 'p, 'a, 'e) stage \<Rightarrow> time option" where
  "rearmed ops s =
     (let tNext = UntilNext ops (clock s) (batcher s)
      in if tNext \<ge> 0 then Some (clock s + tNext) else None)"

text \<open>Events that do not come from a \<^verbatim>\<open>select\<close> of the loop.\<close>

fun is_external :: "('p, 'a, 'e) event \<Rightarrow> bool" where
  "is_external (Elapse d) = True"
| "is_external CallCloseAsync = True"
| "is_external CallCloseNow = True"
| "is_external (AckTask n tev) = True"
| "is_external ev = False"


text \<open>
  A run with count 2 and period 100: A arrives at 0, B arrives at 60 and completes a batch
  that the downstream consumer accepts.
\<close>

definition count_flush_before_deadline :: "(string, nat, string) event list" where
  "count_flush_before_deadline = [RecvTran [''A''] 0, Elapse 60, RecvTran [''B''] 1, Sent]"


text \<open>
  A run with count 1: the send of A is interrupted by forced close; the loop then takes
  another transaction B, whose batch is sent, and the result for B's batch arrives.
\<close>

definition stale_fan_in :: "(string, nat, string) event list" where
  "stale_fan_in =
     [RecvTran [''A''] 0, CallCloseNow, SendAborted, RecvTran [''B''] 1, Sent,
      AckTask 0 (TaskResult None (\<lambda>a. True))]"

section \<open>WaitForClose (batcher.go, lines 185 to 196)\<close>

text \<open>
  A \<^verbatim>\<open>time.Duration\<close> is a signed 64-bit count of nanoseconds; its subtraction wraps.
  \<^verbatim>\<open>time.After\<close> belongs to Go's library: its channel delivers after the duration, at once
  when the duration is not positive. \<open>After\<close> gives the nanoseconds until it delivers.
\<close>

type_synonym duration = "64 word"

definition Second :: duration where
  "Second = 1000000000"

definition After :: "duration \<Rightarrow> nat" where
  "After d = (if sint d \<le> 0 then 0 else nat (sint d))"

text \<open>The argument of \<^verbatim>\<open>time.After\<close> in the goroutine that \<^verbatim>\<open>WaitForClose\<close> starts (line 187).\<close>

definition escalation_delay :: "duration \<Rightarrow> duration" where
  "escalation_delay timeout = timeout - Second"

text \<open>
  The goroutine of lines 186 to 189: after the delay it calls \<^verbatim>\<open>shutSig.CloseNow()\<close>,
  without looking at the state of the stage.
\<close>

definition escalation :: "duration \<Rightarrow> nat \<times> ('p, 'a, 'e) event" where
  "escalation timeout = (After (escalation_delay timeout), CallCloseNow)"








section \<open>Properties of the ack-forward task\<close>

lemma ack_calls_append: "ack_calls (xs @ ys) = ack_calls xs @ ack_calls ys"
  by (induction xs rule: ack_calls.induct) simp_all

lemma forward_split:
  "forward ok res cs =
     map (\<lambda>c. AckCall (snd c) res True) (takeWhile (\<lambda>c. ok (snd c)) cs)
     @ map (\<lambda>c. AckCall (snd c) res False) (take 1 (dropWhile (\<lambda>c. ok (snd c)) cs))"
  by (induction cs) simp_all

text \<open>
  C1, as the code has it: a task that receives a result hands that same result to the
  contributors in the order of the captured set, one \<^verbatim>\<open>Ack\<close> call each, up to and including
  the first contributor whose \<^verbatim>\<open>Ack\<close> returns an error; the contributors behind that one
  get no call. When no \<^verbatim>\<open>Ack\<close> returns an error, every contributor gets exactly one copy.
\<close>

theorem ack_task_forwards_until_first_error:
  "ack_task (TaskResult res ok) cs =
     map (\<lambda>c. AckCall (snd c) res True) (takeWhile (\<lambda>c. ok (snd c)) cs)
     @ map (\<lambda>c. AckCall (snd c) res False) (take 1 (dropWhile (\<lambda>c. ok (snd c)) cs))"
  unfolding ack_task_def by (simp add: forward_split)

text \<open>
  C1 as stated fails: with two contributors, the first one's \<^verbatim>\<open>Ack\<close> returning an error
  leaves the second one without any forwarding attempt.
\<close>

theorem ack_task_not_independent:
  "attempts (1::nat)
     (ack_task (TaskResult (None :: string option) ((<) 0)) [([''x''], 0), ([''y''], 1)]) = []"
  unfolding ack_task_def by simp

section \<open>A result channel closed without a result\<close>




lemma map_of_filter_fst: "map_of (filter (\<lambda>t. fst t \<noteq> n) xs) n = None"
  by (induction xs) auto

text \<open>
  C10: when the result channel of a started task is closed without a result, the task is
  enabled, makes no \<^verbatim>\<open>Ack\<close> call at all, and is taken off the outstanding tasks; if the
  loop was waiting for exactly this task, the stage goes on to the fully closed state.
\<close>

theorem closed_result_channel_forwards_nothing:
  assumes "map_of (pendingAcks s) n = Some cs"
  shows "\<exists>s'. step ops s (AckTask n TaskChanClosed) = Some s'
           \<and> ack_task TaskChanClosed cs = ([] :: ('p, 'a, 'e) action list)
           \<and> ack_calls (trace s') = ack_calls (trace (s :: ('b, 'p, 'a, 'e) stage))
           \<and> map_of (pendingAcks s') n = None
           \<and> (if pc s = AcksWait \<and> filter (\<lambda>t. fst t \<noteq> n) (pendingAcks s) = []
               then pc s' = Terminated \<and> HasClosedChan (shutSig s')
               else pc s' = pc s)"
  using assms
  by (simp add: step_def run_task_def ack_task_def settle_def closing_def emit_def
      ack_calls_append map_of_filter_fst HasClosedChan_def ShutdownComplete_def)

theorem closed_result_channel_forwards_nothing_witness:
  "map_of (pendingAcks waiting_for_one_task) 0 = Some [([''A''], 0)]
   \<and> (\<exists>s'. step acc_ops waiting_for_one_task (AckTask 0 TaskChanClosed) = Some s'
        \<and> ack_calls (trace s') = []
        \<and> pc s' = Terminated \<and> HasClosedChan (shutSig s'))"
proof -
  have h: "map_of (pendingAcks waiting_for_one_task) 0 = Some [([''A''], 0)]"
    by (simp add: waiting_for_one_task_def)
  from closed_result_channel_forwards_nothing [OF h, of acc_ops]
  show ?thesis by (auto simp add: waiting_for_one_task_def)
qed

section \<open>The send is bounded by forced close\<close>

lemma sent_batches_append: "sent_batches (xs @ ys) = sent_batches xs @ sent_batches ys"
  by (induction xs rule: sent_batches.induct) simp_all

lemma run_append:
  "run ops s (xs @ ys) = (case run ops s xs of None \<Rightarrow> None | Some s' \<Rightarrow> run ops s' ys)"
  by (induction xs arbitrary: s) (simp_all split: option.splits)

lemma CloseNowChan_imp_leisure: "CloseNowChan g \<Longrightarrow> CloseAtLeisureChan g"
  by (auto simp: CloseNowChan_def CloseAtLeisureChan_def)

lemma forced_tasks:
  "pc s = AcksWait \<Longrightarrow> pendingAcks s \<noteq> [] \<Longrightarrow> CloseNowChan (shutSig s) \<Longrightarrow>
   \<exists>evs s'. list_all is_forced evs \<and> run ops s evs = Some s' \<and> pc s' = Terminated"
proof (induction "length (pendingAcks s)" arbitrary: s rule: less_induct)
  case less
  obtain n cs rest where pa: "pendingAcks s = (n, cs) # rest"
    using less.prems(2) by (cases "pendingAcks s") auto
  let ?s1 = "(emit (ack_task TaskCloseNow cs) s)\<lparr>pendingAcks := filter (\<lambda>t. fst t \<noteq> n) (pendingAcks s)\<rparr>"
  have st: "step ops s (AckTask n TaskCloseNow) = Some (settle ?s1)"
    using pa less.prems(3) by (simp add: step_def run_task_def)
  show ?case
  proof (cases "filter (\<lambda>t. fst t \<noteq> n) (pendingAcks s) = []")
    case True
    then have "pc (settle ?s1) = Terminated"
      using less.prems(1) by (simp add: settle_def closing_def emit_def)
    with st show ?thesis
      by (intro exI[of _ "[AckTask n TaskCloseNow]"] exI[of _ "settle ?s1"]) simp
  next
    case False
    then have eq: "settle ?s1 = ?s1"
      by (simp add: settle_def emit_def)
    have len: "length (pendingAcks ?s1) < length (pendingAcks s)"
      using pa by (simp add: emit_def le_imp_less_Suc)
    have "\<exists>evs s'. list_all is_forced evs \<and> run ops ?s1 evs = Some s' \<and> pc s' = Terminated"
      using less.hyps [OF len] less.prems(1,3) False by (simp add: emit_def)
    then obtain evs s' where e: "list_all is_forced evs" "run ops ?s1 evs = Some s'" "pc s' = Terminated"
      by blast
    have "run ops s (AckTask n TaskCloseNow # evs) = Some s'"
      using st eq e(2) by simp
    moreover have "list_all is_forced (AckTask n TaskCloseNow # evs)" using e(1) by simp
    ultimately show ?thesis using e(3) by blast
  qed
qed

lemma forced_acks_wait:
  assumes "CloseNowChan (shutSig s)"
  shows "\<exists>evs s'. list_all is_forced evs \<and> run ops (acks_wait s) evs = Some s' \<and> pc s' = Terminated"
proof (cases "pendingAcks s = []")
  case True
  then have "pc (acks_wait s) = Terminated"
    by (simp add: acks_wait_def settle_def closing_def emit_def)
  then show ?thesis
    by (intro exI[of _ "[]"] exI[of _ "acks_wait s"]) simp
next
  case False
  then have "pc (acks_wait s) = AcksWait" "pendingAcks (acks_wait s) \<noteq> []"
    "CloseNowChan (shutSig (acks_wait s))"
    using assms by (simp_all add: acks_wait_def settle_def emit_def)
  then show ?thesis by (rule forced_tasks)
qed

lemma forced_return_from_loop:
  assumes "CloseNowChan (shutSig s)"
  shows "\<exists>evs s'. list_all is_forced evs \<and> run ops (return_from_loop ops s) evs = Some s'
           \<and> pc s' = Terminated"
proof (cases "fst (Flush ops (clock s) (batcher s))")
  case None
  let ?s1 = "emit [FlushCall None] (s\<lparr>batcher := snd (Flush ops (clock s) (batcher s))\<rparr>)"
  have "return_from_loop ops s = acks_wait ?s1"
    using None by (simp add: return_from_loop_def flushBatchFn_def split_beta)
  moreover have "CloseNowChan (shutSig ?s1)" using assms by (simp add: emit_def)
  ultimately show ?thesis using forced_acks_wait [of ?s1 ops] by simp
next
  case (Some m)
  let ?s1 = "emit [FlushCall (Some m)] (s\<lparr>batcher := snd (Flush ops (clock s) (batcher s))\<rparr>)"
  let ?s2 = "?s1\<lparr>pc := SendSelect m FinalWait\<rparr>"
  have r: "return_from_loop ops s = ?s2"
    using Some by (simp add: return_from_loop_def flushBatchFn_def split_beta)
  have c: "CloseNowChan (shutSig ?s2)" using assms by (simp add: emit_def)
  then have st: "step ops ?s2 SendAborted = Some (acks_wait ?s2)"
    by (simp add: step_def send_select_def continue_def)
  from forced_acks_wait [OF c, of ops] obtain evs s'
    where e: "list_all is_forced evs" "run ops (acks_wait ?s2) evs = Some s'" "pc s' = Terminated"
    by blast
  have "run ops ?s2 (SendAborted # evs) = Some s'" using st e(2) by simp
  moreover have "list_all is_forced (SendAborted # evs)" using e(1) by simp
  ultimately show ?thesis using e(3) r by metis
qed

lemma forced_continue:
  assumes "CloseNowChan (shutSig s)"
  shows "\<exists>evs s'. list_all is_forced evs \<and> run ops (continue ops k s) evs = Some s'
           \<and> pc s' = Terminated"
proof (cases k)
  case ContinueLoop
  let ?s1 = "loop_top ops s"
  have sig: "shutSig ?s1 = shutSig s" by (simp add: loop_top_def arm_def Let_def)
  have "pc ?s1 = MainSelect" by (simp add: loop_top_def)
  then have st: "step ops ?s1 AtLeisure = Some (return_from_loop ops ?s1)"
    using assms sig by (simp add: step_def main_select_def CloseNowChan_imp_leisure)
  from forced_return_from_loop [of ?s1 ops] assms sig obtain evs s'
    where e: "list_all is_forced evs" "run ops (return_from_loop ops ?s1) evs = Some s'" "pc s' = Terminated"
    by auto
  have "run ops ?s1 (AtLeisure # evs) = Some s'" using st e(2) by simp
  moreover have "list_all is_forced (AtLeisure # evs)" using e(1) by simp
  ultimately show ?thesis using e(3) ContinueLoop unfolding continue_def by (metis cont.simps(7))
next
  case ReturnFromLoop
  then show ?thesis using forced_return_from_loop [OF assms, of ops] by (simp add: continue_def)
next
  case FinalWait
  then show ?thesis using forced_acks_wait [OF assms, of ops] by (simp add: continue_def)
qed

lemma acks_wait_keeps:
  "sent_batches (trace (acks_wait s)) = sent_batches (trace s)"
  "pendingAcks (acks_wait s) = pendingAcks s"
  by (simp_all add: acks_wait_def settle_def closing_def emit_def sent_batches_append)

lemma loop_top_keeps:
  "trace (loop_top ops s) = trace s"
  "pendingAcks (loop_top ops s) = pendingAcks s"
  "shutSig (loop_top ops s) = shutSig s"
  "pc (loop_top ops s) = MainSelect"
  by (simp_all add: loop_top_def arm_def Let_def)

lemma return_from_loop_keeps:
  "sent_batches (trace (return_from_loop ops s)) = sent_batches (trace s)"
  "pendingAcks (return_from_loop ops s) = pendingAcks s"
  by (simp_all add: return_from_loop_def flushBatchFn_def split_beta Let_def acks_wait_keeps
      emit_def sent_batches_append split: option.splits)

lemma continue_keeps:
  "sent_batches (trace (continue ops k s)) = sent_batches (trace s)"
  "pendingAcks (continue ops k s) = pendingAcks s"
  by (cases k; simp add: continue_def acks_wait_keeps loop_top_keeps return_from_loop_keeps)+

text \<open>
  C5: in a send, once forced close has been requested, the close-now case can be taken
  whatever the downstream consumer does; taking it returns from \<^verbatim>\<open>flushBatchFn\<close> to its
  caller with no batch sent and no task started, and from there the stage can reach the
  fully closed state through close cases alone.
\<close>

theorem send_bounded_by_forced_close:
  assumes "pc s = SendSelect m k" and "CloseNowChan (shutSig s)"
  shows "step ops s SendAborted = Some (continue ops k s)
         \<and> sent_batches (trace (continue ops k s)) = sent_batches (trace s)
         \<and> pendingAcks (continue ops k s) = pendingAcks s
         \<and> (\<exists>evs s'. list_all is_forced evs \<and> run ops s (SendAborted # evs) = Some s'
               \<and> pc s' = Terminated)"
proof -
  have st: "step ops s SendAborted = Some (continue ops k s)"
    using assms by (simp add: step_def send_select_def)
  from forced_continue [OF assms(2), of ops k] obtain evs s'
    where "list_all is_forced evs" "run ops (continue ops k s) evs = Some s'" "pc s' = Terminated"
    by blast
  with st have "\<exists>evs s'. list_all is_forced evs \<and> run ops s (SendAborted # evs) = Some s'
               \<and> pc s' = Terminated"
    by (intro exI[of _ evs] exI[of _ s']) simp
  with st show ?thesis by (simp add: continue_keeps)
qed

theorem send_bounded_by_forced_close_witness:
  "pc blocked_in_send = SendSelect [''A''] ContinueLoop
   \<and> CloseNowChan (shutSig blocked_in_send)
   \<and> step acc_ops blocked_in_send SendAborted = Some (continue acc_ops ContinueLoop blocked_in_send)
   \<and> sent_batches (trace (continue acc_ops ContinueLoop blocked_in_send)) = []
   \<and> (\<exists>evs s'. list_all is_forced evs \<and> run acc_ops blocked_in_send (SendAborted # evs) = Some s'
               \<and> pc s' = Terminated)"
proof -
  have h1: "pc blocked_in_send = SendSelect [''A''] ContinueLoop"
    by (simp add: blocked_in_send_def)
  have h2: "CloseNowChan (shutSig blocked_in_send)"
    by (simp add: blocked_in_send_def CloseNowChan_def)
  have h3: "sent_batches (trace blocked_in_send) = []"
    by (simp add: blocked_in_send_def)
  from send_bounded_by_forced_close [OF h1 h2, of acc_ops] h1 h2 h3
  show ?thesis by auto
qed

section \<open>The shutdown sequence\<close>













lemmas stage_eval =
  New_def loop_top_def arm_def step_def main_select_def drain_select_def send_select_def
  run_task_def continue_def return_from_loop_def flushBatchFn_def acks_wait_def settle_def
  closing_def sent_def emit_def timer_due_def ack_task_def
  acc_ops_def acc_Add_def acc_UntilNext_def acc_Flush_def triggered_def counting_def timed_def
  CloseAtLeisure_def CloseNow_def ShutdownComplete_def CloseAtLeisureChan_def CloseNowChan_def
  HasClosedChan_def Let_def




section \<open>Batches under a count threshold\<close>

declare chunks.simps [simp del]

lemma chunks_Nil: "chunks K [] = []"
  by (simp add: chunks.simps)

lemma chunks_short: "0 < K \<Longrightarrow> xs \<noteq> [] \<Longrightarrow> length xs \<le> K \<Longrightarrow> chunks K xs = [xs]"
  by (subst chunks.simps) (simp add: chunks_Nil)

lemma chunks_full: "0 < K \<Longrightarrow> length ps = K \<Longrightarrow> chunks K (ps @ xs) = ps # chunks K xs"
  by (subst chunks.simps) auto

lemma concat_chunks: "0 < K \<Longrightarrow> concat (chunks K xs) = xs"
  by (induction K xs rule: chunks.induct) (subst chunks.simps, simp)

lemma sizes_chunks:
  "0 < K \<Longrightarrow> map length (chunks K xs) =
     replicate (length xs div K) K @ (if length xs mod K = 0 then [] else [length xs mod K])"
proof (induction K xs rule: chunks.induct)
  case (1 K xs)
  show ?case
  proof (cases "xs = []")
    case True
    then show ?thesis by (simp add: chunks_Nil)
  next
    case False
    show ?thesis
    proof (cases "length xs < K")
      case True
      with False 1(2) show ?thesis by (simp add: chunks_short)
    next
      case ge: False
      then have K: "K \<le> length xs" by simp
      have ih: "map length (chunks K (drop K xs)) =
          replicate ((length xs - K) div K) K @ (if (length xs - K) mod K = 0 then [] else [(length xs - K) mod K])"
        using 1 False by simp
      have d: "length xs div K = Suc ((length xs - K) div K)"
        using K 1(2) by (simp add: le_div_geq)
      have m: "(length xs - K) mod K = length xs mod K"
        using K by (simp add: le_mod_geq)
      have "chunks K xs = take K xs # chunks K (drop K xs)"
        using False 1(2) by (subst chunks.simps) simp
      then show ?thesis using ih d m K by simp
    qed
  qed
qed

lemma div_full_rest: "0 < (K::nat) \<Longrightarrow> (q * K + (K - 1)) div K = q"
  by (metis add_cancel_left_right diff_less div_less div_mult_self3
      less_numeral_extra(1) not_gr_zero)

lemma div_part_rest: "r < K \<Longrightarrow> 0 < r \<Longrightarrow> ((q + 1) * K + (r - 1)) div K = q + (1::nat)"
  by (metis add.commute add_cancel_left_right div_less div_mult_self2
      less_imp_diff_less less_not_refl mult.commute zero_less_diff)

lemma ceil_div: "0 < (K::nat) \<Longrightarrow> N div K + (if N mod K = 0 then 0 else 1) = (N + K - 1) div K"
proof -
  assume K: "0 < K"
  define q where "q = N div K"
  define r where "r = N mod K"
  have qr: "N = q * K + r" "r < K"
    using K by (simp_all add: q_def r_def)
  show ?thesis
  proof (cases "r = 0")
    case True
    then have "N + K - 1 = q * K + (K - 1)" using qr K by simp
    then have "(N + K - 1) div K = q" using div_full_rest [OF K] by simp
    then show ?thesis using True by (simp add: q_def [symmetric] r_def [symmetric])
  next
    case False
    then have "N + K - 1 = (q + 1) * K + (r - 1)" using qr K by (simp add: algebra_simps)
    then have "(N + K - 1) div K = q + 1" using div_part_rest [of r K q] qr False by simp
    then show ?thesis using False by (simp add: q_def [symmetric] r_def [symmetric])
  qed
qed

lemma length_chunks: "0 < K \<Longrightarrow> length (chunks K xs) = (length xs + K - 1) div K"
proof -
  assume K: "0 < K"
  have "length (chunks K xs) = length (map length (chunks K xs))" by simp
  also have "\<dots> = length xs div K + (if length xs mod K = 0 then 0 else 1)"
    by (simp add: sizes_chunks [OF K])
  finally show ?thesis using ceil_div [OF K] by simp
qed

lemma recv_no_flush:
  assumes "pc s = MainSelect" "nextTimedBatchChan s = None" "count_only K (batcher s)"
    and "Suc (length (parts (batcher s))) < K"
  shows "\<exists>s1. step acc_ops s (RecvTran [r] a) = Some s1 \<and> pc s1 = MainSelect
           \<and> nextTimedBatchChan s1 = None \<and> count_only K (batcher s1)
           \<and> parts (batcher s1) = parts (batcher s) @ [r] \<and> trace s1 = trace s"
  using assms
  by (simp add: count_only_def step_def main_select_def acc_ops_def acc_Add_def triggered_def
      loop_top_def arm_def acc_UntilNext_def Let_def)

lemma recv_flush_sent:
  assumes "pc s = MainSelect" "nextTimedBatchChan s = None" "count_only K (batcher s)"
    and "0 < K" "K \<le> Suc (length (parts (batcher s)))"
  shows "\<exists>s1 s2. step acc_ops s (RecvTran [r] a) = Some s1 \<and> step acc_ops s1 Sent = Some s2
           \<and> pc s2 = MainSelect \<and> nextTimedBatchChan s2 = None \<and> count_only K (batcher s2)
           \<and> parts (batcher s2) = []
           \<and> sent_batches (trace s2) = sent_batches (trace s) @ [parts (batcher s) @ [r]]"
  using assms
  by (simp add: count_only_def step_def main_select_def send_select_def continue_def sent_def
      acc_ops_def acc_Add_def acc_Flush_def triggered_def flushBatchFn_def emit_def
      loop_top_def arm_def acc_UntilNext_def Let_def sent_batches_append)

lemma closed_empty:
  assumes "pc s = MainSelect" "nextTimedBatchChan s = None" "parts (batcher s) = []"
  shows "\<exists>s'. run acc_ops s [RecvClosed] = Some s'
           \<and> sent_batches (trace s') = sent_batches (trace s)"
  using assms
  by (simp add: step_def main_select_def acc_ops_def acc_Flush_def flushBatchFn_def
      return_from_loop_def acks_wait_keeps emit_def Let_def sent_batches_append)

lemma closed_rest:
  assumes "pc s = MainSelect" "nextTimedBatchChan s = None" "parts (batcher s) \<noteq> []"
  shows "\<exists>s'. run acc_ops s [RecvClosed, Sent] = Some s'
           \<and> sent_batches (trace s') = sent_batches (trace s) @ [parts (batcher s)]"
  using assms
  by (simp add: step_def main_select_def send_select_def continue_def sent_def
      acc_ops_def acc_Flush_def flushBatchFn_def
      return_from_loop_def acks_wait_keeps emit_def Let_def sent_batches_append)

lemma run_arrivals:
  assumes "0 < K"
  shows "pc s = MainSelect \<Longrightarrow> nextTimedBatchChan s = None \<Longrightarrow> count_only K (batcher s) \<Longrightarrow>
         length (parts (batcher s)) = n \<Longrightarrow> n < K \<Longrightarrow>
         \<exists>s'. run acc_ops s (arrivals K n xs) = Some s'
           \<and> sent_batches (trace s') = sent_batches (trace s) @ chunks K (parts (batcher s) @ map fst xs)"
proof (induction xs arbitrary: s n)
  case Nil
  show ?case
  proof (cases "parts (batcher s) = []")
    case True
    with closed_empty [OF Nil(1,2) True] Nil(4) show ?thesis by (simp add: chunks_Nil)
  next
    case False
    then have "n \<noteq> 0" using Nil(4) by auto
    with closed_rest [OF Nil(1,2) False] False Nil(4,5) assms show ?thesis
      by (simp add: chunks_short)
  qed
next
  case (Cons x xs)
  show ?case
  proof (cases "K \<le> Suc n")
    case True
    from recv_flush_sent [OF Cons.prems(1,2,3) assms, of "fst x" "snd x"] True Cons.prems(4)
    obtain s1 s2 where s: "step acc_ops s (RecvTran [fst x] (snd x)) = Some s1"
      "step acc_ops s1 Sent = Some s2" "pc s2 = MainSelect" "nextTimedBatchChan s2 = None"
      "count_only K (batcher s2)" "parts (batcher s2) = []"
      "sent_batches (trace s2) = sent_batches (trace s) @ [parts (batcher s) @ [fst x]]"
      by auto
    from Cons.IH [OF s(3,4,5), of 0] s(6) assms
    obtain s' where s': "run acc_ops s2 (arrivals K 0 xs) = Some s'"
      "sent_batches (trace s') = sent_batches (trace s2) @ chunks K (map fst xs)"
      by auto
    have len: "length (parts (batcher s) @ [fst x]) = K"
      using True Cons.prems(4,5) by simp
    have "chunks K (parts (batcher s) @ map fst (x # xs))
            = (parts (batcher s) @ [fst x]) # chunks K (map fst xs)"
      using chunks_full [OF assms len, of "map fst xs"] by simp
    then show ?thesis using s(1,2,7) s' True by simp
  next
    case False
    then have lt: "Suc (length (parts (batcher s))) < K" using Cons.prems(4) by simp
    from recv_no_flush [OF Cons.prems(1,2,3) lt, of "fst x" "snd x"]
    obtain s1 where s: "step acc_ops s (RecvTran [fst x] (snd x)) = Some s1"
      "pc s1 = MainSelect" "nextTimedBatchChan s1 = None" "count_only K (batcher s1)"
      "parts (batcher s1) = parts (batcher s) @ [fst x]" "trace s1 = trace s"
      by auto
    have "length (parts (batcher s1)) = Suc n" using s(5) Cons.prems(4) by simp
    from Cons.IH [OF s(2,3,4) this] False
    obtain s' where s': "run acc_ops s1 (arrivals K (Suc n) xs) = Some s'"
      "sent_batches (trace s') = sent_batches (trace s1) @ chunks K (parts (batcher s1) @ map fst xs)"
      by auto
    then show ?thesis using s(1,5,6) False by simp
  qed
qed

lemma New_counting:
  "pc (New acc_ops (counting K) t0) = MainSelect"
  "nextTimedBatchChan (New acc_ops (counting K) t0) = None"
  "count_only K (batcher (New acc_ops (counting K) t0))"
  "parts (batcher (New acc_ops (counting K) t0)) = []"
  "trace (New acc_ops (counting K) t0) = []"
  by (simp_all add: New_def loop_top_def arm_def acc_ops_def acc_UntilNext_def counting_def
      count_only_def Let_def)

text \<open>
  C2, as the code has it: with only a count threshold \<open>K\<close> configured, records that arrive
  one per transaction, every send accepted and the input closed after the last record,
  the stage sends the records cut into runs of \<open>K\<close> in arrival order: \<open>N div K\<close> batches of
  size \<open>K\<close>, then one batch of size \<open>N mod K\<close> if that is not zero, which makes the ceiling
  of \<open>N / K\<close> batches.
\<close>

theorem count_batches_of_single_record_transactions:
  assumes "0 < K"
  shows "\<exists>s :: ('p accumulator, 'p, 'a, 'e) stage.
           run acc_ops (New acc_ops (counting K) t0) (arrivals K 0 xs) = Some s
           \<and> sent_batches (trace s) = chunks K (map fst xs)
           \<and> concat (sent_batches (trace s)) = map fst xs
           \<and> length (sent_batches (trace s)) = (length xs + K - 1) div K
           \<and> map length (sent_batches (trace s)) =
               replicate (length xs div K) K
               @ (if length xs mod K = 0 then [] else [length xs mod K])"
proof -
  from run_arrivals [OF assms, where s = "New acc_ops (counting K) t0" and n = 0 and xs = xs]
    assms
  obtain s :: "('p accumulator, 'p, 'a, 'e) stage"
    where s: "run acc_ops (New acc_ops (counting K) t0) (arrivals K 0 xs) = Some s"
    "sent_batches (trace s) = chunks K (map fst xs)"
    by (auto simp: New_counting)
  show ?thesis
    by (rule exI[of _ s])
       (simp add: s concat_chunks [OF assms] length_chunks [OF assms] sizes_chunks [OF assms])
qed

theorem count_batches_of_single_record_transactions_witness:
  "(0::nat) < 3
   \<and> (\<exists>s. run acc_ops (New acc_ops (counting 3) 0)
            (arrivals 3 0 [(''A'', 0::nat), (''B'', 1), (''C'', 2), (''D'', 3), (''E'', 4)]
               :: (string, nat, string) event list) = Some s
         \<and> sent_batches (trace s) = [[''A'', ''B'', ''C''], [''D'', ''E'']]
         \<and> length (sent_batches (trace s)) = 2)"
proof -
  have h: "(0::nat) < 3" by simp
  have c: "chunks 3 [''A'', ''B'', ''C'', ''D'', ''E''] = [[''A'', ''B'', ''C''], [''D'', ''E'']]"
    by (simp add: chunks.simps)
  from count_batches_of_single_record_transactions [OF h, of 0
      "[(''A'', 0::nat), (''B'', 1), (''C'', 2), (''D'', 3), (''E'', 4)]"] c
  show ?thesis by auto
qed

text \<open>
  C2 as stated fails when a transaction carries several records: with count 2, one
  transaction of three records is flushed as a single batch of three, where the claim
  asks for a batch of two followed by a batch of one.
\<close>

theorem count_batches_multi_record_transaction:
  "map_option (sent_batches \<circ> trace)
     (run acc_ops (New acc_ops (counting 2) 0)
        [RecvTran [''A'', ''B'', ''C''] (0::nat), Sent, RecvClosed :: (string, nat, string) event])
   = Some [[''A'', ''B'', ''C'']]"
  by (simp add: stage_eval)

section \<open>The deadline of the periodic flush\<close>

lemma deadline_loop_top:
  "nextTimedBatchChan (loop_top ops s) =
     (case nextTimedBatchChan s of None \<Rightarrow> rearmed ops (loop_top ops s) | Some d \<Rightarrow> Some d)"
  "pc (loop_top ops s) = MainSelect"
  by (simp_all add: loop_top_def arm_def rearmed_def Let_def split: option.splits)

lemma deadline_acks_wait:
  "nextTimedBatchChan (acks_wait s) = nextTimedBatchChan s" "pc (acks_wait s) \<noteq> MainSelect"
  by (simp_all add: acks_wait_def settle_def closing_def emit_def)

lemma deadline_return_from_loop:
  "nextTimedBatchChan (return_from_loop ops s) = nextTimedBatchChan s"
  "pc (return_from_loop ops s) \<noteq> MainSelect"
  by (simp_all add: return_from_loop_def flushBatchFn_def split_beta Let_def emit_def
      deadline_acks_wait split: option.splits)

lemma deadline_flush_loop:
  "nextTimedBatchChan (flushBatchFn ops (loop_top ops) ContinueLoop s) =
     (if pc (flushBatchFn ops (loop_top ops) ContinueLoop s) = MainSelect
      then (case nextTimedBatchChan s of
              None \<Rightarrow> rearmed ops (flushBatchFn ops (loop_top ops) ContinueLoop s)
            | Some d \<Rightarrow> Some d)
      else nextTimedBatchChan s)"
  by (simp add: flushBatchFn_def split_beta Let_def emit_def loop_top_def arm_def rearmed_def
      split: option.splits)

lemma deadline_flush_return:
  "nextTimedBatchChan (flushBatchFn ops (return_from_loop ops) ReturnFromLoop s) = nextTimedBatchChan s"
  "pc (flushBatchFn ops (return_from_loop ops) ReturnFromLoop s) \<noteq> MainSelect"
  by (simp_all add: flushBatchFn_def split_beta Let_def emit_def deadline_return_from_loop
      split: option.splits)

lemma deadline_continue:
  "nextTimedBatchChan (continue ops k s) =
     (if pc (continue ops k s) = MainSelect
      then (case nextTimedBatchChan s of None \<Rightarrow> rearmed ops (continue ops k s) | Some d \<Rightarrow> Some d)
      else nextTimedBatchChan s)"
  by (cases k)
     (simp_all add: continue_def deadline_loop_top deadline_return_from_loop deadline_acks_wait
        split: option.splits)


text \<open>
  C6, as the code has it: the deadline of the periodic flush changes in two places only.
  It is cleared when the timer fires in the main \<^verbatim>\<open>select\<close>, and it is computed from
  \<^verbatim>\<open>UntilNext\<close> at the head of an iteration that finds no deadline armed. Every other
  step, a flush by count, size or predicate included, leaves an armed deadline as it is.
\<close>

theorem deadline_recomputed_only_when_not_armed:
  assumes "step ops s ev = Some s'"
  shows "nextTimedBatchChan s' =
     (if is_external ev then nextTimedBatchChan s
      else if pc s' = MainSelect then
        (case (if ev = TimedBatch then None else nextTimedBatchChan s) of
           None \<Rightarrow> rearmed ops s'
         | Some d \<Rightarrow> Some d)
      else if ev = TimedBatch \<and> pc s = MainSelect then None
      else nextTimedBatchChan s)"
proof (cases ev)
  case (Elapse d)
  with assms show ?thesis by (auto simp: step_def)
next
  case CallCloseAsync
  with assms show ?thesis by (auto simp: step_def)
next
  case CallCloseNow
  with assms show ?thesis by (auto simp: step_def)
next
  case (AckTask n tev)
  with assms show ?thesis
    by (auto simp: step_def run_task_def settle_def closing_def emit_def
        split: option.splits if_splits)
next
  case (RecvTran ps a)
  show ?thesis
  proof (cases "pc s")
    case MainSelect
    with assms RecvTran show ?thesis
      by (auto simp: step_def main_select_def split_beta Let_def deadline_flush_loop
          deadline_loop_top split: if_splits option.splits)
  qed (use assms RecvTran in \<open>simp_all add: step_def drain_select_def send_select_def\<close>)
next
  case RecvClosed
  show ?thesis
  proof (cases "pc s")
    case MainSelect
    with assms RecvClosed show ?thesis
      by (auto simp: step_def main_select_def deadline_flush_return split: if_splits)
  qed (use assms RecvClosed in \<open>simp_all add: step_def drain_select_def send_select_def\<close>)
next
  case TimedBatch
  show ?thesis
  proof (cases "pc s")
    case MainSelect
    with assms TimedBatch show ?thesis
      by (auto simp: step_def main_select_def deadline_flush_loop split: if_splits)
  next
    case DrainSelect
    with assms TimedBatch show ?thesis
      by (auto simp: step_def drain_select_def deadline_flush_return split: if_splits)
  qed (use assms TimedBatch in \<open>simp_all add: step_def send_select_def\<close>)
next
  case AtLeisure
  show ?thesis
  proof (cases "pc s")
    case MainSelect
    with assms AtLeisure show ?thesis
      by (auto simp: step_def main_select_def deadline_return_from_loop split: if_splits)
  next
    case DrainSelect
    with assms AtLeisure show ?thesis
      by (auto simp: step_def drain_select_def deadline_return_from_loop split: if_splits)
  qed (use assms AtLeisure in \<open>simp_all add: step_def send_select_def\<close>)
next
  case Sent
  show ?thesis
  proof (cases "pc s")
    case (SendSelect m k)
    have "nextTimedBatchChan (sent m s) = nextTimedBatchChan s"
      by (simp add: sent_def emit_def)
    with assms Sent SendSelect show ?thesis
      by (auto simp: step_def send_select_def deadline_continue [of ops k "sent m s"])
  qed (use assms Sent in \<open>simp_all add: step_def main_select_def drain_select_def\<close>)
next
  case SendAborted
  show ?thesis
  proof (cases "pc s")
    case (SendSelect m k)
    with assms SendAborted show ?thesis
      by (auto simp: step_def send_select_def deadline_continue [of ops k s] split: if_splits)
  qed (use assms SendAborted in \<open>simp_all add: step_def main_select_def drain_select_def\<close>)
qed

lemma count_flush_eval:
  "\<exists>s s'. run acc_ops (New acc_ops (timed 2 100) 0)
              [RecvTran [''A''] (0::nat), Elapse 60 :: (string, nat, string) event] = Some s
     \<and> step acc_ops s (RecvTran [''B''] 1) = Some s'
     \<and> nextTimedBatchChan s = Some 100
     \<and> pc s' = SendSelect [''A'', ''B''] ContinueLoop"
  by (simp add: stage_eval)

theorem deadline_recomputed_only_when_not_armed_witness:
  "\<exists>s s'. run acc_ops (New acc_ops (timed 2 100) 0)
              [RecvTran [''A''] (0::nat), Elapse 60 :: (string, nat, string) event] = Some s
     \<and> step acc_ops s (RecvTran [''B''] 1) = Some s'
     \<and> pc s' = SendSelect [''A'', ''B''] ContinueLoop
     \<and> nextTimedBatchChan s = Some 100
     \<and> nextTimedBatchChan s' = Some 100"
proof -
  from count_flush_eval obtain s s' where
    e: "run acc_ops (New acc_ops (timed 2 100) 0)
              [RecvTran [''A''] (0::nat), Elapse 60 :: (string, nat, string) event] = Some s"
      "step acc_ops s (RecvTran [''B''] 1) = Some s'"
      "nextTimedBatchChan s = Some 100"
      "pc s' = SendSelect [''A'', ''B''] ContinueLoop"
    by blast
  from deadline_recomputed_only_when_not_armed [OF e(2)] e(3,4)
  have "nextTimedBatchChan s' = Some 100" by simp
  with e show ?thesis by blast
qed

text \<open>
  C6 as stated fails: a batch completed by count at time 60 is flushed and sent, and the
  deadline armed at time 0 for time 100 stays armed; it is not computed afresh from the
  instant of the flush.
\<close>

theorem deadline_kept_across_count_flush:
  "map_option (sent_batches \<circ> trace)
     (run acc_ops (New acc_ops (timed 2 100) 0) count_flush_before_deadline) = Some [[''A'', ''B'']]
   \<and> map_option clock
     (run acc_ops (New acc_ops (timed 2 100) 0) count_flush_before_deadline) = Some 60
   \<and> map_option nextTimedBatchChan
     (run acc_ops (New acc_ops (timed 2 100) 0) count_flush_before_deadline) = Some (Some 100)"
  by (simp add: count_flush_before_deadline_def stage_eval)

section \<open>The input closes while a deadline is armed\<close>








section \<open>Forced close during a send\<close>

text \<open>
  C4 fails on the code: after forced close has interrupted the send of the batch of A,
  the fan-in set still holds A; the next batch that goes through carries it along, and A's
  sink is handed the success of a batch that A was never part of.
\<close>

theorem aborted_send_acked_with_later_result:
  "map_option (sent_batches \<circ> trace) (run acc_ops (New acc_ops (counting 1) 0) stale_fan_in)
     = Some [[''B'']]
   \<and> map_option (delivered 0 \<circ> trace) (run acc_ops (New acc_ops (counting 1) 0) stale_fan_in)
     = Some [None]"
  by (simp add: stale_fan_in_def stage_eval)

section \<open>The escalation of WaitForClose\<close>

lemma sint_escalation_delay:
  assumes "- (2^63) + 1000000000 \<le> sint (timeout :: duration)"
  shows "sint (escalation_delay timeout) = sint timeout - 1000000000"
proof -
  have up: "sint timeout < 2^63" using sint_lt [of timeout] by simp
  have "sint (escalation_delay timeout) = signed_take_bit 63 (sint timeout - 1000000000)"
    by (simp add: escalation_delay_def Second_def sint_word_diff)
  also have "\<dots> = sint timeout - 1000000000"
    using assms up by (intro signed_take_bit_int_eq_self) simp_all
  finally show ?thesis .
qed

text \<open>
  C9, as the code has it: for a timeout of at least one second above the least duration,
  the delay of the escalation is the timeout minus one second; when the timeout is at most
  one second the delay is not positive and the close-now call is due at once. The call is
  made whatever the state of the stage is, and it raises the close-now signal.
\<close>

theorem escalation_one_second_before_deadline:
  assumes "- (2^63) + 1000000000 \<le> sint (timeout :: duration)"
  shows "sint (escalation_delay timeout) = sint timeout - 1000000000
     \<and> (sint timeout \<le> 1000000000 \<longrightarrow>
          sint (escalation_delay timeout) \<le> 0
          \<and> fst (escalation timeout :: nat \<times> ('p, 'a, 'e) event) = 0)
     \<and> snd (escalation timeout) = (CallCloseNow :: ('p, 'a, 'e) event)
     \<and> (\<forall>s :: ('b, 'p, 'a, 'e) stage.
          \<exists>s'. step ops s (snd (escalation timeout)) = Some s' \<and> CloseNowChan (shutSig s'))"
  using sint_escalation_delay [OF assms]
  by (simp add: escalation_def After_def step_def CloseNow_def CloseNowChan_def)

theorem escalation_one_second_before_deadline_witness:
  "- (2^63) + 1000000000 \<le> sint (500000000 :: duration)
   \<and> sint (escalation_delay 500000000) = - 500000000
   \<and> fst (escalation 500000000 :: nat \<times> (string, nat, string) event) = 0"
proof -
  have h: "- (2^63) + 1000000000 \<le> sint (500000000 :: duration)" by simp
  from escalation_one_second_before_deadline
    [OF h, where 'p = string and 'a = nat and 'e = string and 'b = "string accumulator"] h
  show ?thesis by simp
qed

text \<open>
  C9 as stated fails at the least duration: it is below one second, the subtraction
  wraps, and the delay of the escalation comes out positive, about 292 years.
\<close>

theorem escalation_delay_wraps:
  "sint (- (2^63) :: duration) \<le> 1000000000
   \<and> 0 < sint (escalation_delay (- (2^63)))
   \<and> 0 < fst (escalation (- (2^63)) :: nat \<times> (string, nat, string) event)"
  by (simp add: escalation_def After_def escalation_delay_def Second_def)

text \<open>
  Below that bound the subtraction wraps for every timeout, and the delay comes out
  positive.
\<close>

lemma sint_escalation_delay_below:
  assumes "sint (timeout :: duration) < - (2^63) + 1000000000"
  shows "sint (escalation_delay timeout) = sint timeout - 1000000000 + 2^64"
proof -
  have lo: "- (2^63) \<le> sint timeout" using sint_ge [of timeout] by simp
  let ?k = "sint timeout - 1000000000"
  have "sint (escalation_delay timeout) = signed_take_bit 63 ?k"
    by (simp add: escalation_delay_def Second_def sint_word_diff)
  also have "\<dots> = take_bit 64 (?k + 2^63) - 2^63"
    by (simp add: signed_take_bit_eq_take_bit_shift)
  also have "take_bit 64 (?k + 2^63) = (?k + 2^63) mod 2^64"
    by (simp add: take_bit_eq_mod)
  also have "(?k + 2^63) mod 2^64 = ?k + 2^63 + 2^64"
  proof -
    have "(?k + 2^63 + 2^64) mod 2^64 = (?k + 2^63) mod 2^64"
      by (rule mod_add_self2)
    then have "(?k + 2^63) mod 2^64 = (?k + 2^63 + 2^64) mod 2^64" by (rule sym)
    also have "\<dots> = ?k + 2^63 + 2^64"
      using lo assms by (intro mod_pos_pos_trivial) simp_all
    finally show ?thesis .
  qed
  finally show ?thesis by simp
qed

lemma escalation_delay_positive_below_bound:
  assumes "sint (timeout :: duration) < - (2^63) + 1000000000"
  shows "0 < sint (escalation_delay timeout)"
  using sint_escalation_delay_below [OF assms] sint_ge [of timeout] by simp

section \<open>The result of WaitForClose\<close>

















end
